theory Spec2Isabelle
  imports Complex_Main "HOL-Library.AList" "HOL-Library.Multiset"
begin

section \<open>Data model\<close>

text \<open>
  The record types of the dashboard, as the two chart components read them
  (\<^verbatim>\<open>Match\<close>, \<^verbatim>\<open>Tournament\<close>, \<^verbatim>\<open>Derived\<close> of \<^verbatim>\<open>src/types\<close>).
  Identifiers are JavaScript strings. The declaration of \<^verbatim>\<open>Series\<close> is not part of
  the sources at hand, so the series of a tournament is a type parameter.
  A field whose name is already a constant of HOL carries a prefix
  (\<^verbatim>\<open>id\<close>, \<^verbatim>\<open>round\<close>).
\<close>

datatype surface = Hard | Clay | Grass | Carpet

datatype round = R1 | R2 | R3 | R4 | QF | SF | F

record match =
  match_id :: string
  tournamentId :: string
  winnerId :: string
  loserId :: string
  match_round :: round
  date :: string

record 's tournament =
  tournament_id :: string
  surface :: surface
  series :: 's

record derived =
  matchId :: string
  rankDiff :: "int option"

section \<open>JavaScript \<^verbatim>\<open>Map\<close>\<close>

text \<open>
  A \<^verbatim>\<open>Map\<close> keeps its entries in insertion order, and \<^verbatim>\<open>set\<close> on a key that is
  present replaces the stored entry where it stands. That is an association list
  with \<^const>\<open>AList.update\<close>: it overwrites the first entry of the key, or appends a
  new entry at the end. \<^verbatim>\<open>get\<close> is \<^const>\<open>map_of\<close> (\<^verbatim>\<open>undefined\<close> is \<open>None\<close>),
  and \<^verbatim>\<open>new Map(entries)\<close> sets the entries from left to right, so the last entry
  of a key is the one that stays.
\<close>

type_synonym ('k, 'v) jsmap = "('k \<times> 'v) list"

definition map_get :: "('k, 'v) jsmap \<Rightarrow> 'k \<Rightarrow> 'v option" where
  "map_get m k = map_of m k"

definition map_has :: "('k, 'v) jsmap \<Rightarrow> 'k \<Rightarrow> bool" where
  "map_has m k = (k \<in> set (map fst m))"

definition map_set :: "('k, 'v) jsmap \<Rightarrow> 'k \<Rightarrow> 'v \<Rightarrow> ('k, 'v) jsmap" where
  "map_set m k v = AList.update k v m"

definition new_Map :: "('k \<times> 'v) list \<Rightarrow> ('k, 'v) jsmap" where
  "new_Map es = fold (\<lambda>(k, v) m. map_set m k v) es []"

section \<open>Win rate by surface (PlayerSurfaceProfile.tsx)\<close>

text \<open>
  \<^verbatim>\<open>const tournamentsMap = new Map(tournaments.map(t => [t.id, t]))\<close>
\<close>

definition tournamentsMap :: "'s tournament list \<Rightarrow> (string, 's tournament) jsmap" where
  "tournamentsMap tournaments = new_Map (map (\<lambda>t. (tournament_id t, t)) tournaments)"

text \<open>
  \<^verbatim>\<open>matches.filter(m => m.winnerId === playerId || m.loserId === playerId)\<close>
\<close>

definition playerMatches :: "match list \<Rightarrow> string \<Rightarrow> match list" where
  "playerMatches matches playerId =
     filter (\<lambda>m. winnerId m = playerId \<or> loserId m = playerId) matches"

record stats =
  wins :: nat
  total :: nat

record surfaceStat = stats +
  stat_surface :: surface
  winRate :: real

text \<open>
  The body of \<^verbatim>\<open>playerMatches.forEach(match => ...)\<close>, one match at a time. The
  accumulator is the \<^verbatim>\<open>surfaceStats\<close> map. The source mutates the stored counter
  object in place; here the updated counters are written back under the same key,
  which keeps the entry's position. \<^verbatim>\<open>surfaceStats.get(...)!\<close> is a lookup that the
  two lines before it make succeed (lemma \<open>map_get_after_ensure\<close>).
\<close>

definition surfaceStats_body ::
  "(string, 's tournament) jsmap \<Rightarrow> string \<Rightarrow> match \<Rightarrow> (surface, stats) jsmap \<Rightarrow> (surface, stats) jsmap"
where
  "surfaceStats_body tm playerId m acc =
     (case map_get tm (tournamentId m) of
        None \<Rightarrow> acc
      | Some t \<Rightarrow>
          let acc1 = (if \<not> map_has acc (surface t)
                      then map_set acc (surface t) \<lparr>wins = 0, total = 0\<rparr> else acc);
              st = the (map_get acc1 (surface t));
              st1 = st\<lparr>total := total st + 1\<rparr>;
              st2 = (if winnerId m = playerId then st1\<lparr>wins := wins st1 + 1\<rparr> else st1)
          in map_set acc1 (surface t) st2)"

definition surfaceStats ::
  "(string, 's tournament) jsmap \<Rightarrow> string \<Rightarrow> match list \<Rightarrow> (surface, stats) jsmap"
where
  "surfaceStats tm playerId ms = fold (surfaceStats_body tm playerId) ms []"

text \<open>
  \<^verbatim>\<open>Array.from(surfaceStats.entries()).map(([surface, stats]) => ({surface, winRate:
  stats.total > 0 ? stats.wins / stats.total : 0, wins: stats.wins, total: stats.total}))\<close>.
  The quotient of the two counters is taken in the reals.
\<close>

definition toSurfaceStat :: "surface \<times> stats \<Rightarrow> surfaceStat" where
  "toSurfaceStat e =
     (case e of (s, st) \<Rightarrow>
        \<lparr>wins = wins st, total = total st, stat_surface = s,
         winRate = (if total st > 0 then real (wins st) / real (total st) else 0)\<rparr>)"

text \<open>
  The surface aggregation of one pinned player: lines 35 to 65 of the component,
  the operation the specification calls \<^verbatim>\<open>computeSurfaceProfile\<close>.
\<close>

definition computeSurfaceProfile ::
  "match list \<Rightarrow> (string, 's tournament) jsmap \<Rightarrow> string \<Rightarrow> surfaceStat list"
where
  "computeSurfaceProfile matches tm playerId =
     map toSurfaceStat (surfaceStats tm playerId (playerMatches matches playerId))"

section \<open>Properties of the surface aggregation\<close>

text \<open>What one contributing match does to the counters of its surface.\<close>

definition bump :: "string \<Rightarrow> match \<Rightarrow> stats \<Rightarrow> stats" where
  "bump playerId m st =
     (if winnerId m = playerId then st\<lparr>total := total st + 1, wins := wins st + 1\<rparr>
      else st\<lparr>total := total st + 1\<rparr>)"

lemma map_get_after_ensure:
  "map_get (if \<not> map_has acc s then map_set acc s v else acc) s \<noteq> None"
  by (auto simp: map_get_def map_has_def map_set_def update_conv' map_of_eq_None_iff dom_update)

lemma surfaceStats_body_unresolved:
  "map_get tm (tournamentId m) = None \<Longrightarrow> surfaceStats_body tm p m acc = acc"
  by (simp add: surfaceStats_body_def)

lemma surfaceStats_body_resolved:
  assumes "map_get tm (tournamentId m) = Some t"
  shows "surfaceStats_body tm p m acc =
    AList.update (surface t)
      (bump p m (case map_of acc (surface t) of None \<Rightarrow> \<lparr>wins = 0, total = 0\<rparr> | Some st \<Rightarrow> st)) acc"
proof (cases "map_of acc (surface t)")
  case None
  then have "surface t \<notin> fst ` set acc" by (simp add: map_of_eq_None_iff)
  with None assms show ?thesis
    by (simp add: surfaceStats_body_def map_has_def map_set_def map_get_def update_conv' bump_def Let_def)
next
  case (Some st)
  then have "surface t \<in> fst ` set acc" by (metis map_of_eq_None_iff option.distinct(1))
  with Some assms show ?thesis
    by (simp add: surfaceStats_body_def map_has_def map_set_def map_get_def update_conv' bump_def Let_def)
qed

lemma update_keys_list:
  "map fst (AList.update k v al) = (if k \<in> set (map fst al) then map fst al else map fst al @ [k])"
  by (induction al) auto

lemma update_set_subset: "set (AList.update k v al) \<subseteq> insert (k, v) (set al)"
  by (induction al) auto

lemma update_sum_None:
  "map_of al k = None \<Longrightarrow> sum_list (map f (AList.update k v al)) = sum_list (map f al) + (f (k, v) :: nat)"
  by (induction al) (auto split: if_splits)

lemma update_sum_Some:
  "map_of al k = Some v0 \<Longrightarrow>
   sum_list (map f (AList.update k v al)) + f (k, v0) = sum_list (map f al) + (f (k, v) :: nat)"
  by (induction al) (auto split: if_splits)


text \<open>
  The order of first encounter, in the words of the specification: an element stands
  where the scan meets it first, and later occurrences are dropped.
\<close>

fun firstEncountered :: "'a list \<Rightarrow> 'a list" where
  "firstEncountered [] = []"
| "firstEncountered (x # xs) = x # removeAll x (firstEncountered xs)"

text \<open>
  The surface that a match resolves to, and the surfaces of the player's matches in scan
  order (unresolved matches give none).
\<close>

definition matchSurface :: "(string, 's tournament) jsmap \<Rightarrow> match \<Rightarrow> surface option" where
  "matchSurface tm m = map_option surface (map_get tm (tournamentId m))"

definition observedSurfaces :: "match list \<Rightarrow> (string, 's tournament) jsmap \<Rightarrow> string \<Rightarrow> surface list" where
  "observedSurfaces matches tm playerId = List.map_filter (matchSurface tm) (playerMatches matches playerId)"

lemma surfaceStats_body_total:
  assumes "map_get tm (tournamentId m) \<noteq> None"
  shows "sum_list (map (\<lambda>e. total (snd e)) (surfaceStats_body tm p m acc)) =
         sum_list (map (\<lambda>e. total (snd e)) acc) + 1"
proof -
  from assms obtain t where t: "map_get tm (tournamentId m) = Some t" by blast
  show ?thesis
  proof (cases "map_of acc (surface t)")
    case None
    then show ?thesis
      by (simp add: surfaceStats_body_resolved [OF t] update_sum_None bump_def)
  next
    case (Some st)
    from update_sum_Some [OF Some, of "\<lambda>e. total (snd e)" "bump p m st"] Some
    show ?thesis
      by (simp add: surfaceStats_body_resolved [OF t] bump_def split: if_splits)
  qed
qed

lemma surfaceStats_fold_total:
  "sum_list (map (\<lambda>e. total (snd e)) (fold (surfaceStats_body tm p) ms acc)) =
   sum_list (map (\<lambda>e. total (snd e)) acc) +
   length (filter (\<lambda>m. map_get tm (tournamentId m) \<noteq> None) ms)"
proof (induction ms arbitrary: acc)
  case Nil
  show ?case by simp
next
  case (Cons m ms)
  show ?case
  proof (cases "map_get tm (tournamentId m)")
    case None
    then show ?thesis by (simp add: Cons.IH surfaceStats_body_unresolved)
  next
    case (Some t)
    then have "map_get tm (tournamentId m) \<noteq> None" by simp
    from surfaceStats_body_total [OF this] Some show ?thesis by (simp add: Cons.IH)
  qed
qed

lemma fold_surfaceStats_body_filter:
  "fold (surfaceStats_body tm p) (filter (\<lambda>m. map_get tm (tournamentId m) \<noteq> None) ms) acc =
   fold (surfaceStats_body tm p) ms acc"
  by (induction ms arbitrary: acc) (auto simp: surfaceStats_body_unresolved)

lemma total_toSurfaceStat: "total (toSurfaceStat e) = total (snd e)"
  by (cases e) (simp add: toSurfaceStat_def)

text \<open>
  Claim C3. The \<open>total\<close> fields of the entries that \<open>computeSurfaceProfile\<close> returns add up
  to the number of matches in which the player is winner or loser and whose
  \<open>tournamentId\<close> is a key of the lookup. Matches whose tournament is absent are in no
  group: leaving them out of the match list beforehand gives the same result.
\<close>

theorem computeSurfaceProfile_total_sum:
  "sum_list (map total (computeSurfaceProfile matches tm playerId)) =
     length (filter (\<lambda>m. (winnerId m = playerId \<or> loserId m = playerId)
                         \<and> map_get tm (tournamentId m) \<noteq> None) matches)
   \<and> computeSurfaceProfile (filter (\<lambda>m. map_get tm (tournamentId m) \<noteq> None) matches) tm playerId
      = computeSurfaceProfile matches tm playerId"
proof
  have "sum_list (map total (computeSurfaceProfile matches tm playerId)) =
        sum_list (map (\<lambda>e. total (snd e)) (surfaceStats tm playerId (playerMatches matches playerId)))"
    by (simp add: computeSurfaceProfile_def comp_def total_toSurfaceStat)
  also have "\<dots> = length (filter (\<lambda>m. map_get tm (tournamentId m) \<noteq> None) (playerMatches matches playerId))"
    by (simp add: surfaceStats_def surfaceStats_fold_total)
  finally show "sum_list (map total (computeSurfaceProfile matches tm playerId)) =
     length (filter (\<lambda>m. (winnerId m = playerId \<or> loserId m = playerId)
                         \<and> map_get tm (tournamentId m) \<noteq> None) matches)"
    by (simp add: playerMatches_def conj_commute)
next
  have "playerMatches (filter (\<lambda>m. map_get tm (tournamentId m) \<noteq> None) matches) playerId =
        filter (\<lambda>m. map_get tm (tournamentId m) \<noteq> None) (playerMatches matches playerId)"
    by (simp add: playerMatches_def conj_commute)
  then show "computeSurfaceProfile (filter (\<lambda>m. map_get tm (tournamentId m) \<noteq> None) matches) tm playerId
      = computeSurfaceProfile matches tm playerId"
    by (simp only: computeSurfaceProfile_def surfaceStats_def fold_surfaceStats_body_filter)
qed

text \<open>The invariant of the counters: wins never exceed the total, and no counter is empty.\<close>

definition counted :: "(surface \<times> stats) list \<Rightarrow> bool" where
  "counted acc = (\<forall>e\<in>set acc. wins (snd e) \<le> total (snd e) \<and> 1 \<le> total (snd e))"

lemma counted_surfaceStats_body: "counted acc \<Longrightarrow> counted (surfaceStats_body tm p m acc)"
proof (cases "map_get tm (tournamentId m)")
  case None
  assume "counted acc"
  with None show ?thesis by (simp add: surfaceStats_body_unresolved)
next
  case (Some t)
  assume c: "counted acc"
  let ?st = "case map_of acc (surface t) of None \<Rightarrow> \<lparr>wins = 0, total = 0\<rparr> | Some st \<Rightarrow> st"
  have "wins ?st \<le> total ?st"
  proof (cases "map_of acc (surface t)")
    case None
    then show ?thesis by simp
  next
    case (Some st)
    then have "(surface t, st) \<in> set acc" by (rule map_of_SomeD)
    with c Some show ?thesis by (auto simp: counted_def)
  qed
  then have b: "wins (bump p m ?st) \<le> total (bump p m ?st) \<and> 1 \<le> total (bump p m ?st)"
    by (simp add: bump_def)
  show ?thesis
    unfolding surfaceStats_body_resolved [OF Some] counted_def
  proof
    fix e assume "e \<in> set (AList.update (surface t) (bump p m ?st) acc)"
    with update_set_subset have "e = (surface t, bump p m ?st) \<or> e \<in> set acc" by fastforce
    with b c show "wins (snd e) \<le> total (snd e) \<and> 1 \<le> total (snd e)"
      by (auto simp: counted_def)
  qed
qed

lemma counted_fold: "counted acc \<Longrightarrow> counted (fold (surfaceStats_body tm p) ms acc)"
  by (induction ms arbitrary: acc) (auto simp: counted_surfaceStats_body)

lemma counted_surfaceStats: "counted (surfaceStats tm p ms)"
  unfolding surfaceStats_def by (rule counted_fold) (simp add: counted_def)

lemma surfaceStats_body_keys:
  "map fst (surfaceStats_body tm p m acc) =
     (case matchSurface tm m of None \<Rightarrow> map fst acc
      | Some s \<Rightarrow> if s \<in> set (map fst acc) then map fst acc else map fst acc @ [s])"
proof (cases "map_get tm (tournamentId m)")
  case None
  then show ?thesis by (simp add: surfaceStats_body_unresolved matchSurface_def)
next
  case (Some t)
  show ?thesis
    by (simp add: surfaceStats_body_resolved [OF Some] matchSurface_def Some update_keys_list)
qed

lemma filter_removeAll_notin:
  "filter (\<lambda>s. s \<notin> insert x A) xs = filter (\<lambda>s. s \<notin> A) (removeAll x xs)"
  by (induction xs) auto

lemma filter_removeAll_in:
  "x \<in> A \<Longrightarrow> filter (\<lambda>s. s \<notin> A) (removeAll x xs) = filter (\<lambda>s. s \<notin> A) xs"
  by (induction xs) auto

lemma surfaceStats_fold_keys:
  "map fst (fold (surfaceStats_body tm p) ms acc) =
   map fst acc @ filter (\<lambda>s. s \<notin> set (map fst acc)) (firstEncountered (List.map_filter (matchSurface tm) ms))"
proof (induction ms arbitrary: acc)
  case Nil
  show ?case by simp
next
  case (Cons m ms)
  show ?case
  proof (cases "matchSurface tm m")
    case None
    then show ?thesis by (simp add: Cons.IH surfaceStats_body_keys)
  next
    case (Some s)
    show ?thesis
    proof (cases "s \<in> set (map fst acc)")
      case True
      with Some show ?thesis
        by (simp add: Cons.IH surfaceStats_body_keys filter_removeAll_in)
    next
      case False
      with Some show ?thesis
        by (simp add: Cons.IH surfaceStats_body_keys filter_removeAll_notin [symmetric])
    qed
  qed
qed

lemma set_firstEncountered: "set (firstEncountered xs) = set xs"
  by (induction xs) auto

lemma stat_surface_toSurfaceStat: "stat_surface (toSurfaceStat e) = fst e"
  by (cases e) (simp add: toSurfaceStat_def)

lemma wins_toSurfaceStat: "wins (toSurfaceStat e) = wins (snd e)"
  by (cases e) (simp add: toSurfaceStat_def)

lemma winRate_toSurfaceStat:
  "winRate (toSurfaceStat e) = (if total (snd e) > 0 then real (wins (snd e)) / real (total (snd e)) else 0)"
  by (cases e) (simp add: toSurfaceStat_def)

lemma computeSurfaceProfile_entry:
  assumes "e \<in> set (computeSurfaceProfile matches tm p)"
  obtains a where "a \<in> set (surfaceStats tm p (playerMatches matches p))" "e = toSurfaceStat a"
    "wins (snd a) \<le> total (snd a)" "1 \<le> total (snd a)"
proof -
  from assms obtain a where a: "a \<in> set (surfaceStats tm p (playerMatches matches p))" "e = toSurfaceStat a"
    by (auto simp: computeSurfaceProfile_def)
  with counted_surfaceStats [of tm p "playerMatches matches p"] that show ?thesis
    by (auto simp: counted_def)
qed

text \<open>
  Claim C5. Every entry of the result has a win rate between 0 and 1, which is
  \<open>wins / total\<close> when \<open>total\<close> is positive and 0 when \<open>total\<close> is 0.
\<close>

theorem computeSurfaceProfile_winRate:
  assumes "e \<in> set (computeSurfaceProfile matches tm playerId)"
  shows "0 \<le> winRate e \<and> winRate e \<le> 1 \<and>
         winRate e = (if total e > 0 then real (wins e) / real (total e) else 0)"
proof -
  from assms obtain a where a: "e = toSurfaceStat a" "wins (snd a) \<le> total (snd a)" "1 \<le> total (snd a)"
    by (rule computeSurfaceProfile_entry)
  then show ?thesis
    by (simp add: winRate_toSurfaceStat total_toSurfaceStat wins_toSurfaceStat)
qed

text \<open>
  Claim C10. In every entry of the result \<open>0 \<le> wins \<le> total\<close> and \<open>total \<ge> 1\<close>.
  So for every entry of the \<open>surfaceStats\<close> map the test \<open>total > 0\<close> of the win rate
  succeeds: the win rate of an emitted entry is always the quotient, never the 0 of the
  other branch.
\<close>

theorem surfaceStats_guard:
  "(e \<in> set (computeSurfaceProfile matches tm playerId) \<longrightarrow>
      0 \<le> wins e \<and> wins e \<le> total e \<and> 1 \<le> total e \<and> winRate e = real (wins e) / real (total e))
   \<and> (a \<in> set (surfaceStats tm playerId (playerMatches matches playerId)) \<longrightarrow>
        wins (snd a) \<le> total (snd a) \<and> 0 < total (snd a))"
proof (intro conjI impI)
  assume "e \<in> set (computeSurfaceProfile matches tm playerId)"
  then obtain a where a: "e = toSurfaceStat a" "wins (snd a) \<le> total (snd a)" "1 \<le> total (snd a)"
    by (rule computeSurfaceProfile_entry)
  then show "wins e \<le> total e" "1 \<le> total e" "winRate e = real (wins e) / real (total e)" "0 \<le> wins e"
    by (simp_all add: winRate_toSurfaceStat total_toSurfaceStat wins_toSurfaceStat)
next
  assume "a \<in> set (surfaceStats tm playerId (playerMatches matches playerId))"
  with counted_surfaceStats [of tm playerId "playerMatches matches playerId"]
  show "wins (snd a) \<le> total (snd a)" "0 < total (snd a)"
    by (auto simp: counted_def)
qed

text \<open>
  Claim C6. The surfaces of the result are the surfaces of the player's resolved matches,
  each once, in the order in which the scan of the match list meets them first; every
  entry stands for a surface that some contributing match has, and counts at least one
  match. The order is not the canonical one: in the example of the witness Clay comes
  before Hard.
\<close>

theorem computeSurfaceProfile_order:
  "map stat_surface (computeSurfaceProfile matches tm playerId) =
     firstEncountered (observedSurfaces matches tm playerId)
   \<and> (\<forall>e\<in>set (computeSurfaceProfile matches tm playerId).
        stat_surface e \<in> set (observedSurfaces matches tm playerId) \<and> 1 \<le> total e)"
proof
  show o: "map stat_surface (computeSurfaceProfile matches tm playerId) =
     firstEncountered (observedSurfaces matches tm playerId)"
    by (simp add: computeSurfaceProfile_def comp_def stat_surface_toSurfaceStat surfaceStats_def
        surfaceStats_fold_keys observedSurfaces_def)
  show "\<forall>e\<in>set (computeSurfaceProfile matches tm playerId).
        stat_surface e \<in> set (observedSurfaces matches tm playerId) \<and> 1 \<le> total e"
  proof
    fix e assume e: "e \<in> set (computeSurfaceProfile matches tm playerId)"
    then have "stat_surface e \<in> set (map stat_surface (computeSurfaceProfile matches tm playerId))"
      by simp
    then have "stat_surface e \<in> set (observedSurfaces matches tm playerId)"
      unfolding o by (simp add: set_firstEncountered)
    moreover from e obtain a where "e = toSurfaceStat a" "1 \<le> total (snd a)"
      by (rule computeSurfaceProfile_entry)
    then have "1 \<le> total e" by (simp add: total_toSurfaceStat)
    ultimately show "stat_surface e \<in> set (observedSurfaces matches tm playerId) \<and> 1 \<le> total e" ..
  qed
qed



subsection \<open>Examples\<close>

definition exampleTournaments :: "string tournament list" where
  "exampleTournaments =
     [\<lparr>tournament_id = ''T1'', surface = Hard, series = ''Grand Slam''\<rparr>,
      \<lparr>tournament_id = ''T2'', surface = Clay, series = ''Masters''\<rparr>]"

definition scenarioA :: "match list" where
  "scenarioA =
     [\<lparr>match_id = ''m1'', tournamentId = ''T1'', winnerId = ''P1'', loserId = ''P2'', match_round = R1, date = ''2020-01-01''\<rparr>,
      \<lparr>match_id = ''m2'', tournamentId = ''T1'', winnerId = ''P1'', loserId = ''P3'', match_round = R2, date = ''2020-01-02''\<rparr>,
      \<lparr>match_id = ''m3'', tournamentId = ''T1'', winnerId = ''P2'', loserId = ''P1'', match_round = QF, date = ''2020-01-03''\<rparr>]"

definition clayFirst :: "match list" where
  "clayFirst =
     [\<lparr>match_id = ''m1'', tournamentId = ''T2'', winnerId = ''P1'', loserId = ''P2'', match_round = R1, date = ''2020-01-01''\<rparr>,
      \<lparr>match_id = ''m2'', tournamentId = ''T9'', winnerId = ''P1'', loserId = ''P3'', match_round = R2, date = ''2020-01-02''\<rparr>,
      \<lparr>match_id = ''m3'', tournamentId = ''T1'', winnerId = ''P2'', loserId = ''P1'', match_round = QF, date = ''2020-01-03''\<rparr>,
      \<lparr>match_id = ''m4'', tournamentId = ''T2'', winnerId = ''P3'', loserId = ''P1'', match_round = SF, date = ''2020-01-04''\<rparr>]"

lemmas surface_eval = computeSurfaceProfile_def surfaceStats_def playerMatches_def surfaceStats_body_def
  tournamentsMap_def new_Map_def map_set_def map_get_def map_has_def toSurfaceStat_def Let_def

lemma scenarioA_eval:
  "computeSurfaceProfile scenarioA (tournamentsMap exampleTournaments) ''P1'' =
     [\<lparr>wins = 2, total = 3, stat_surface = Hard, winRate = 2 / 3\<rparr>]"
  by (simp add: surface_eval scenarioA_def exampleTournaments_def)

lemma clayFirst_eval:
  "computeSurfaceProfile clayFirst (tournamentsMap exampleTournaments) ''P1'' =
     [\<lparr>wins = 1, total = 2, stat_surface = Clay, winRate = 1 / 2\<rparr>,
      \<lparr>wins = 0, total = 1, stat_surface = Hard, winRate = 0\<rparr>]"
  by (simp add: surface_eval clayFirst_def exampleTournaments_def)

text \<open>Scenario A of the specification, as the witness of C5.\<close>

theorem computeSurfaceProfile_winRate_witness:
  "\<lparr>wins = 2, total = 3, stat_surface = Hard, winRate = 2 / 3\<rparr>
     \<in> set (computeSurfaceProfile scenarioA (tournamentsMap exampleTournaments) ''P1'')
   \<and> winRate \<lparr>wins = 2, total = 3, stat_surface = Hard, winRate = 2 / 3\<rparr> = 2 / 3
   \<and> (0::real) \<le> 2 / 3 \<and> (2::real) / 3 \<le> 1"
proof -
  have m: "\<lparr>wins = 2, total = 3, stat_surface = Hard, winRate = 2 / 3\<rparr>
     \<in> set (computeSurfaceProfile scenarioA (tournamentsMap exampleTournaments) ''P1'')"
    by (simp add: scenarioA_eval)
  from computeSurfaceProfile_winRate [OF m] m show ?thesis by simp
qed

theorem computeSurfaceProfile_order_witness:
  "map stat_surface (computeSurfaceProfile clayFirst (tournamentsMap exampleTournaments) ''P1'') = [Clay, Hard]
   \<and> observedSurfaces clayFirst (tournamentsMap exampleTournaments) ''P1'' = [Clay, Hard, Clay]
   \<and> map total (computeSurfaceProfile clayFirst (tournamentsMap exampleTournaments) ''P1'') = [2, 1]"
proof -
  have o: "observedSurfaces clayFirst (tournamentsMap exampleTournaments) ''P1'' = [Clay, Hard, Clay]"
    by (simp add: observedSurfaces_def matchSurface_def surface_eval clayFirst_def
        exampleTournaments_def map_filter_simps)
  from computeSurfaceProfile_order [of clayFirst "tournamentsMap exampleTournaments" "''P1''"] o
  show ?thesis by (simp add: clayFirst_eval)
qed

theorem surfaceStats_guard_witness:
  "surfaceStats (tournamentsMap exampleTournaments) ''P1'' (playerMatches scenarioA ''P1'')
     = [(Hard, \<lparr>wins = 2, total = 3\<rparr>)]
   \<and> computeSurfaceProfile scenarioA (tournamentsMap exampleTournaments) ''P1'' =
     [\<lparr>wins = 2, total = 3, stat_surface = Hard, winRate = 2 / 3\<rparr>]
   \<and> (2::nat) \<le> 3 \<and> (0::nat) < 3"
proof -
  have s: "surfaceStats (tournamentsMap exampleTournaments) ''P1'' (playerMatches scenarioA ''P1'')
     = [(Hard, \<lparr>wins = 2, total = 3\<rparr>)]"
    by (simp add: surface_eval scenarioA_def exampleTournaments_def)
  from surfaceStats_guard [of "\<lparr>wins = 2, total = 3, stat_surface = Hard, winRate = 2 / 3\<rparr>"
      scenarioA "tournamentsMap exampleTournaments" "''P1''" "(Hard, \<lparr>wins = 2, total = 3\<rparr>)"] s
  show ?thesis by (simp add: scenarioA_eval)
qed

section \<open>Rank difference by round (CompetitivenessBeeswarm)\<close>

text \<open>
  An element of a round's group, \<^verbatim>\<open>{ match, derived: d }\<close>.
\<close>

record entry =
  entry_match :: match
  entry_derived :: derived

text \<open>
  The three filters of the component, applied one after the other. \<^verbatim>\<open>surface\<close> and
  \<^verbatim>\<open>series\<close> are \<^verbatim>\<open>null\<close> (\<open>None\<close>) when no filter is chosen, and \<^verbatim>\<open>rounds\<close> is the
  round whitelist of the store, empty when there is none. A surface or series that is
  chosen is a non-empty string of its enumeration, so the tests \<^verbatim>\<open>if (surface)\<close> and
  \<^verbatim>\<open>if (series)\<close> tell \<open>Some\<close> from \<open>None\<close>. \<^verbatim>\<open>tournament?.surface === surface\<close> is false
  for a tournament that the lookup does not have.
\<close>

definition filteredMatches ::
  "(string, 's tournament) jsmap \<Rightarrow> surface option \<Rightarrow> 's option \<Rightarrow> round list \<Rightarrow> match list \<Rightarrow> match list"
where
  "filteredMatches tm surf ser rounds matches =
     (let fm1 = (case surf of
                   None \<Rightarrow> matches
                 | Some s \<Rightarrow> filter (\<lambda>m. map_option surface (map_get tm (tournamentId m)) = Some s) matches);
          fm2 = (case ser of
                   None \<Rightarrow> fm1
                 | Some s \<Rightarrow> filter (\<lambda>m. map_option series (map_get tm (tournamentId m)) = Some s) fm1)
      in if length rounds > 0 then filter (\<lambda>m. match_round m \<in> set rounds) fm2 else fm2)"

text \<open>
  \<^verbatim>\<open>const derivedMap = new Map(derived.map(d => [d.matchId, d]))\<close>
\<close>

definition derivedMap :: "derived list \<Rightarrow> (string, derived) jsmap" where
  "derivedMap ds = new_Map (map (\<lambda>d. (matchId d, d)) ds)"

text \<open>
  The body of \<^verbatim>\<open>filteredMatches.forEach(match => ...)\<close>. A derived record is an object
  and so truthy; \<^verbatim>\<open>d.rankDiff !== undefined\<close> is \<open>rankDiff d \<noteq> None\<close>. The push onto the
  stored array is written back under the same key, and \<^verbatim>\<open>roundGroups.get(...)!\<close> is
  again a lookup that succeeds (lemma \<open>map_get_after_ensure\<close>).
\<close>

definition roundGroups_body ::
  "(string, derived) jsmap \<Rightarrow> match \<Rightarrow> (round, entry list) jsmap \<Rightarrow> (round, entry list) jsmap"
where
  "roundGroups_body dm m groups =
     (case map_get dm (match_id m) of
        None \<Rightarrow> groups
      | Some d \<Rightarrow>
          if rankDiff d \<noteq> None then
            let g1 = (if \<not> map_has groups (match_round m)
                      then map_set groups (match_round m) [] else groups)
            in map_set g1 (match_round m)
                 (the (map_get g1 (match_round m)) @ [\<lparr>entry_match = m, entry_derived = d\<rparr>])
          else groups)"

definition roundGroups :: "(string, derived) jsmap \<Rightarrow> match list \<Rightarrow> (round, entry list) jsmap" where
  "roundGroups dm fms = fold (roundGroups_body dm) fms []"

text \<open>
  Lines 33 to 67 of the component, the operation the specification calls
  \<^verbatim>\<open>groupByRound\<close>: from the props and the store's round whitelist to the
  \<^verbatim>\<open>roundGroups\<close> map.
\<close>

definition groupByRound ::
  "match list \<Rightarrow> derived list \<Rightarrow> 's tournament list \<Rightarrow> surface option \<Rightarrow> 's option \<Rightarrow> round list
     \<Rightarrow> (round, entry list) jsmap"
where
  "groupByRound matches ds tournaments surf ser rounds =
     roundGroups (derivedMap ds) (filteredMatches (tournamentsMap tournaments) surf ser rounds matches)"

section \<open>Properties of the round grouping\<close>

lemma roundGroups_body_skip:
  "map_get dm (match_id m) = None \<or> (\<exists>d. map_get dm (match_id m) = Some d \<and> rankDiff d = None)
   \<Longrightarrow> roundGroups_body dm m groups = groups"
  by (auto simp: roundGroups_body_def)

lemma roundGroups_body_push:
  assumes "map_get dm (match_id m) = Some d" "rankDiff d \<noteq> None"
  shows "roundGroups_body dm m groups =
    AList.update (match_round m)
      ((case map_of groups (match_round m) of None \<Rightarrow> [] | Some g \<Rightarrow> g)
         @ [\<lparr>entry_match = m, entry_derived = d\<rparr>]) groups"
proof (cases "map_of groups (match_round m)")
  case None
  then have "match_round m \<notin> fst ` set groups" by (simp add: map_of_eq_None_iff)
  with None assms show ?thesis
    by (simp add: roundGroups_body_def map_has_def map_set_def map_get_def update_conv' Let_def)
next
  case (Some g)
  then have "match_round m \<in> fst ` set groups" by (metis map_of_eq_None_iff option.distinct(1))
  with Some assms show ?thesis
    by (simp add: roundGroups_body_def map_has_def map_set_def map_get_def update_conv' Let_def)
qed

text \<open>
  The invariant of the grouping loop: no stored group is empty, and every element of
  the group of a round satisfies \<open>Q\<close> for that round.
\<close>

definition grouped :: "(round \<Rightarrow> entry \<Rightarrow> bool) \<Rightarrow> (round \<times> entry list) list \<Rightarrow> bool" where
  "grouped Q groups = (\<forall>rg\<in>set groups. snd rg \<noteq> [] \<and> (\<forall>e\<in>set (snd rg). Q (fst rg) e))"

lemma grouped_body:
  assumes g: "grouped Q groups"
    and q: "\<And>d. map_get dm (match_id m) = Some d \<Longrightarrow> rankDiff d \<noteq> None \<Longrightarrow>
              Q (match_round m) \<lparr>entry_match = m, entry_derived = d\<rparr>"
  shows "grouped Q (roundGroups_body dm m groups)"
proof (cases "map_get dm (match_id m)")
  case None
  with g show ?thesis by (simp add: roundGroups_body_skip)
next
  case (Some d)
  show ?thesis
  proof (cases "rankDiff d")
    case None
    with Some g show ?thesis by (simp add: roundGroups_body_skip)
  next
    case (Some x)
    then have nn: "rankDiff d \<noteq> None" by simp
    let ?old = "case map_of groups (match_round m) of None \<Rightarrow> [] | Some g \<Rightarrow> g"
    let ?new = "?old @ [\<lparr>entry_match = m, entry_derived = d\<rparr>]"
    have old: "\<forall>e\<in>set ?old. Q (match_round m) e"
    proof (cases "map_of groups (match_round m)")
      case None
      then show ?thesis by simp
    next
      case (Some g0)
      then have "(match_round m, g0) \<in> set groups" by (rule map_of_SomeD)
      with g Some show ?thesis by (auto simp: grouped_def)
    qed
    have new: "?new \<noteq> [] \<and> (\<forall>e\<in>set ?new. Q (match_round m) e)"
      using old q [OF \<open>map_get dm (match_id m) = Some d\<close> nn] by auto
    show ?thesis
      unfolding roundGroups_body_push [OF \<open>map_get dm (match_id m) = Some d\<close> nn] grouped_def
    proof
      fix rg assume "rg \<in> set (AList.update (match_round m) ?new groups)"
      with update_set_subset have "rg = (match_round m, ?new) \<or> rg \<in> set groups" by fastforce
      then show "snd rg \<noteq> [] \<and> (\<forall>e\<in>set (snd rg). Q (fst rg) e)"
      proof
        assume r: "rg = (match_round m, ?new)"
        show ?thesis unfolding r fst_conv snd_conv by (rule new)
      next
        assume "rg \<in> set groups"
        with g show ?thesis by (simp add: grouped_def)
      qed
    qed
  qed
qed

lemma grouped_fold:
  assumes "grouped Q groups"
    and "\<And>m d. m \<in> set fms \<Longrightarrow> map_get dm (match_id m) = Some d \<Longrightarrow> rankDiff d \<noteq> None \<Longrightarrow>
              Q (match_round m) \<lparr>entry_match = m, entry_derived = d\<rparr>"
  shows "grouped Q (fold (roundGroups_body dm) fms groups)"
  using assms
proof (induction fms arbitrary: groups)
  case Nil
  then show ?case by simp
next
  case (Cons m fms)
  have "grouped Q (roundGroups_body dm m groups)"
    by (rule grouped_body [OF Cons.prems(1)]) (rule Cons.prems(2); simp)
  then have "grouped Q (fold (roundGroups_body dm) fms (roundGroups_body dm m groups))"
    by (rule Cons.IH) (rule Cons.prems(2); simp)
  then show ?case by simp
qed

lemma roundGroups_grouped:
  "grouped (\<lambda>r e. entry_match e \<in> set fms
                \<and> map_get dm (match_id (entry_match e)) = Some (entry_derived e)
                \<and> rankDiff (entry_derived e) \<noteq> None
                \<and> match_round (entry_match e) = r) (roundGroups dm fms)"
  unfolding roundGroups_def
  by (rule grouped_fold) (simp_all add: grouped_def)

lemma new_Map_consistent_aux:
  "\<forall>kv\<in>set acc. f (snd kv) = fst kv \<Longrightarrow>
   \<forall>kv\<in>set (fold (\<lambda>(k, v) m. map_set m k v) (map (\<lambda>d. (f d, d)) ds) acc). f (snd kv) = fst kv"
proof (induction ds arbitrary: acc)
  case Nil
  then show ?case by simp
next
  case (Cons d ds)
  have "\<forall>kv\<in>set (map_set acc (f d) d). f (snd kv) = fst kv"
  proof
    fix kv assume "kv \<in> set (map_set acc (f d) d)"
    with update_set_subset have "kv = (f d, d) \<or> kv \<in> set acc"
      unfolding map_set_def by fastforce
    with Cons.prems show "f (snd kv) = fst kv" by auto
  qed
  from Cons.IH [OF this] show ?case by simp
qed

lemma new_Map_consistent:
  "map_get (new_Map (map (\<lambda>d. (f d, d)) ds)) k = Some d \<Longrightarrow> f d = k"
proof -
  assume "map_get (new_Map (map (\<lambda>d. (f d, d)) ds)) k = Some d"
  then have "(k, d) \<in> set (new_Map (map (\<lambda>d. (f d, d)) ds))"
    unfolding map_get_def by (rule map_of_SomeD)
  moreover have "\<forall>kv\<in>set (new_Map (map (\<lambda>d. (f d, d)) ds)). f (snd kv) = fst kv"
    unfolding new_Map_def by (rule new_Map_consistent_aux) simp
  ultimately show ?thesis by fastforce
qed

lemma filteredMatches_subset: "set (filteredMatches tm surf ser rounds ms) \<subseteq> set ms"
  by (auto simp: filteredMatches_def Let_def split: option.splits if_splits)

lemma filteredMatches_resolved:
  "surf \<noteq> None \<or> ser \<noteq> None \<Longrightarrow> m \<in> set (filteredMatches tm surf ser rounds ms) \<Longrightarrow>
   map_get tm (tournamentId m) \<noteq> None"
  by (auto simp: filteredMatches_def Let_def split: option.splits if_splits)

lemma filteredMatches_drop_unresolved:
  "surf \<noteq> None \<or> ser \<noteq> None \<Longrightarrow>
   filteredMatches tm surf ser rounds (filter (\<lambda>m. map_get tm (tournamentId m) \<noteq> None) ms) =
   filteredMatches tm surf ser rounds ms"
  by (auto simp: filteredMatches_def Let_def split: option.splits intro!: filter_cong)

lemma filteredMatches_no_lookup:
  "filteredMatches tm None None rounds ms = filteredMatches tm' None None rounds ms"
  by (simp add: filteredMatches_def)



text \<open>
  Claim C7. A match is in a round's group only if the derived lookup has a record for
  its id and that record's \<open>rankDiff\<close> is defined; and every entry of the returned
  mapping has a non-empty group, so a round without qualifying matches is not a key.
\<close>

theorem groupByRound_derived_defined:
  assumes "(r, g) \<in> set (groupByRound matches ds tournaments surf ser rounds)"
  shows "g \<noteq> [] \<and>
         (\<forall>e\<in>set g. \<exists>d. map_get (derivedMap ds) (match_id (entry_match e)) = Some d
                        \<and> rankDiff d \<noteq> None)"
  using assms roundGroups_grouped
    [of "filteredMatches (tournamentsMap tournaments) surf ser rounds matches" "derivedMap ds"]
  unfolding groupByRound_def grouped_def by fastforce

text \<open>
  Claim C9. Every element of a group is consistent: its derived record carries the id of
  its match, has a defined \<open>rankDiff\<close>, and the element is stored under the round of its
  match.
\<close>

theorem groupByRound_entry_consistent:
  assumes "(r, g) \<in> set (groupByRound matches ds tournaments surf ser rounds)" and "e \<in> set g"
  shows "matchId (entry_derived e) = match_id (entry_match e)
         \<and> rankDiff (entry_derived e) \<noteq> None
         \<and> match_round (entry_match e) = r"
proof -
  from assms roundGroups_grouped
    [of "filteredMatches (tournamentsMap tournaments) surf ser rounds matches" "derivedMap ds"]
  have q: "map_get (derivedMap ds) (match_id (entry_match e)) = Some (entry_derived e)"
    "rankDiff (entry_derived e) \<noteq> None" "match_round (entry_match e) = r"
    unfolding groupByRound_def grouped_def by fastforce+
  from q(1) have "matchId (entry_derived e) = match_id (entry_match e)"
    unfolding derivedMap_def by (rule new_Map_consistent)
  with q show ?thesis by simp
qed

text \<open>
  Claim C2, as the code has it. When a surface filter or a series filter is set, a match
  whose \<open>tournamentId\<close> is not a key of the tournament lookup contributes nothing to the
  result of \<open>groupByRound\<close>: removing such matches beforehand gives the same mapping, and
  every grouped match resolves. When neither is set, the tournaments are not consulted
  at all: the result is the same for any list of tournaments.
\<close>

theorem groupByRound_unresolved_dropped:
  "(surf \<noteq> None \<or> ser \<noteq> None \<longrightarrow>
      groupByRound (filter (\<lambda>m. map_get (tournamentsMap tournaments) (tournamentId m) \<noteq> None) matches)
          ds tournaments surf ser rounds
        = groupByRound matches ds tournaments surf ser rounds
      \<and> (\<forall>rg\<in>set (groupByRound matches ds tournaments surf ser rounds). \<forall>e\<in>set (snd rg).
            map_get (tournamentsMap tournaments) (tournamentId (entry_match e)) \<noteq> None))
   \<and> groupByRound matches ds tournaments None None rounds
       = groupByRound matches ds tournaments' None None rounds"
proof (intro conjI impI)
  assume f: "surf \<noteq> None \<or> ser \<noteq> None"
  then show "groupByRound (filter (\<lambda>m. map_get (tournamentsMap tournaments) (tournamentId m) \<noteq> None) matches)
          ds tournaments surf ser rounds
        = groupByRound matches ds tournaments surf ser rounds"
    unfolding groupByRound_def by (simp only: filteredMatches_drop_unresolved)
  show "\<forall>rg\<in>set (groupByRound matches ds tournaments surf ser rounds). \<forall>e\<in>set (snd rg).
            map_get (tournamentsMap tournaments) (tournamentId (entry_match e)) \<noteq> None"
  proof (intro ballI)
    fix rg e
    assume "rg \<in> set (groupByRound matches ds tournaments surf ser rounds)" "e \<in> set (snd rg)"
    with roundGroups_grouped
      [of "filteredMatches (tournamentsMap tournaments) surf ser rounds matches" "derivedMap ds"]
    have "entry_match e \<in> set (filteredMatches (tournamentsMap tournaments) surf ser rounds matches)"
      unfolding groupByRound_def grouped_def by fastforce
    with f show "map_get (tournamentsMap tournaments) (tournamentId (entry_match e)) \<noteq> None"
      by (rule filteredMatches_resolved)
  qed
next
  show "groupByRound matches ds tournaments None None rounds
       = groupByRound matches ds tournaments' None None rounds"
    unfolding groupByRound_def
    by (simp only: filteredMatches_no_lookup [of "tournamentsMap tournaments" rounds matches "tournamentsMap tournaments'"])
qed

subsection \<open>Examples of the round grouping\<close>

text \<open>
  Four matches: one with a tournament and a rank difference, one without a derived
  record, one whose derived record has no rank difference, and one whose tournament
  is not in the lookup.
\<close>

definition hardMatch :: match where
  "hardMatch = \<lparr>match_id = ''m1'', tournamentId = ''T1'', winnerId = ''P1'', loserId = ''P2'',
                match_round = R1, date = ''2020-01-01''\<rparr>"

definition bareMatch :: match where
  "bareMatch = \<lparr>match_id = ''m2'', tournamentId = ''T1'', winnerId = ''P3'', loserId = ''P4'',
                match_round = R1, date = ''2020-01-01''\<rparr>"

definition unrankedMatch :: match where
  "unrankedMatch = \<lparr>match_id = ''m3'', tournamentId = ''T2'', winnerId = ''P1'', loserId = ''P4'',
                match_round = SF, date = ''2020-01-05''\<rparr>"

definition orphanMatch :: match where
  "orphanMatch = \<lparr>match_id = ''m9'', tournamentId = ''T9'', winnerId = ''P1'', loserId = ''P2'',
                  match_round = QF, date = ''2020-01-03''\<rparr>"

definition exampleDerived :: "derived list" where
  "exampleDerived =
     [\<lparr>matchId = ''m1'', rankDiff = Some 7\<rparr>,
      \<lparr>matchId = ''m3'', rankDiff = None\<rparr>,
      \<lparr>matchId = ''m9'', rankDiff = Some (- 12)\<rparr>]"

lemmas round_eval = groupByRound_def roundGroups_def roundGroups_body_def filteredMatches_def
  derivedMap_def tournamentsMap_def new_Map_def map_set_def map_get_def map_has_def Let_def
  hardMatch_def bareMatch_def unrankedMatch_def orphanMatch_def exampleDerived_def exampleTournaments_def

lemma groupByRound_example:
  "groupByRound [hardMatch, bareMatch, unrankedMatch, orphanMatch] exampleDerived exampleTournaments
      None None [] =
     [(R1, [\<lparr>entry_match = hardMatch, entry_derived = \<lparr>matchId = ''m1'', rankDiff = Some 7\<rparr>\<rparr>]),
      (QF, [\<lparr>entry_match = orphanMatch, entry_derived = \<lparr>matchId = ''m9'', rankDiff = Some (- 12)\<rparr>\<rparr>])]"
  by (simp add: round_eval)

lemma groupByRound_example_hard:
  "groupByRound [hardMatch, bareMatch, unrankedMatch, orphanMatch] exampleDerived exampleTournaments
      (Some Hard) None [] =
     [(R1, [\<lparr>entry_match = hardMatch, entry_derived = \<lparr>matchId = ''m1'', rankDiff = Some 7\<rparr>\<rparr>])]"
  by (simp add: round_eval)

text \<open>
  Claim C2 as stated fails without a surface or series filter: the match of the unknown
  tournament \<open>T9\<close> is grouped under its round, with no filter and with a round whitelist.
\<close>

theorem groupByRound_unfiltered_counterexample:
  "map_get (tournamentsMap exampleTournaments) (tournamentId orphanMatch) = None
   \<and> groupByRound [orphanMatch] exampleDerived exampleTournaments None None [] =
       [(QF, [\<lparr>entry_match = orphanMatch, entry_derived = \<lparr>matchId = ''m9'', rankDiff = Some (- 12)\<rparr>\<rparr>])]
   \<and> groupByRound [orphanMatch] exampleDerived exampleTournaments None None [QF, SF] =
       [(QF, [\<lparr>entry_match = orphanMatch, entry_derived = \<lparr>matchId = ''m9'', rankDiff = Some (- 12)\<rparr>\<rparr>])]"
  by (simp add: round_eval)

theorem groupByRound_unresolved_dropped_witness:
  "groupByRound
     (filter (\<lambda>m. map_get (tournamentsMap exampleTournaments) (tournamentId m) \<noteq> None) [hardMatch, orphanMatch])
     exampleDerived exampleTournaments (Some Hard) None []
     = groupByRound [hardMatch, orphanMatch] exampleDerived exampleTournaments (Some Hard) None []
   \<and> filter (\<lambda>m. map_get (tournamentsMap exampleTournaments) (tournamentId m) \<noteq> None) [hardMatch, orphanMatch]
       = [hardMatch]
   \<and> groupByRound [hardMatch, orphanMatch] exampleDerived exampleTournaments (Some Hard) None []
       = [(R1, [\<lparr>entry_match = hardMatch, entry_derived = \<lparr>matchId = ''m1'', rankDiff = Some 7\<rparr>\<rparr>])]
   \<and> groupByRound [hardMatch, orphanMatch] exampleDerived exampleTournaments None None [] =
     groupByRound [hardMatch, orphanMatch] exampleDerived [] None None []"
proof -
  note t = groupByRound_unresolved_dropped
    [of "Some Hard" None exampleTournaments "[hardMatch, orphanMatch]" exampleDerived "[]" "[]"]
  have f: "Some Hard \<noteq> None \<or> (None :: string option) \<noteq> None" by simp
  from t f have "groupByRound
     (filter (\<lambda>m. map_get (tournamentsMap exampleTournaments) (tournamentId m) \<noteq> None) [hardMatch, orphanMatch])
     exampleDerived exampleTournaments (Some Hard) None []
     = groupByRound [hardMatch, orphanMatch] exampleDerived exampleTournaments (Some Hard) None []"
    by blast
  moreover have "filter (\<lambda>m. map_get (tournamentsMap exampleTournaments) (tournamentId m) \<noteq> None) [hardMatch, orphanMatch]
       = [hardMatch]"
    by (simp add: round_eval)
  moreover have "groupByRound [hardMatch, orphanMatch] exampleDerived exampleTournaments (Some Hard) None []
       = [(R1, [\<lparr>entry_match = hardMatch, entry_derived = \<lparr>matchId = ''m1'', rankDiff = Some 7\<rparr>\<rparr>])]"
    by (simp add: round_eval)
  moreover from t have "groupByRound [hardMatch, orphanMatch] exampleDerived exampleTournaments None None [] =
     groupByRound [hardMatch, orphanMatch] exampleDerived [] None None []"
    by blast
  ultimately show ?thesis by blast
qed

theorem groupByRound_derived_defined_witness:
  "(R1, [\<lparr>entry_match = hardMatch, entry_derived = \<lparr>matchId = ''m1'', rankDiff = Some 7\<rparr>\<rparr>])
     \<in> set (groupByRound [hardMatch, bareMatch, unrankedMatch, orphanMatch] exampleDerived exampleTournaments None None [])
   \<and> (\<exists>d. map_get (derivedMap exampleDerived) (match_id hardMatch) = Some d \<and> rankDiff d \<noteq> None)
   \<and> map_get (derivedMap exampleDerived) (match_id bareMatch) = None
   \<and> map_option rankDiff (map_get (derivedMap exampleDerived) (match_id unrankedMatch)) = Some None"
proof -
  have m: "(R1, [\<lparr>entry_match = hardMatch, entry_derived = \<lparr>matchId = ''m1'', rankDiff = Some 7\<rparr>\<rparr>])
     \<in> set (groupByRound [hardMatch, bareMatch, unrankedMatch, orphanMatch] exampleDerived exampleTournaments None None [])"
    by (simp add: groupByRound_example)
  have "map_get (derivedMap exampleDerived) (match_id bareMatch) = None"
    "map_option rankDiff (map_get (derivedMap exampleDerived) (match_id unrankedMatch)) = Some None"
    by (simp_all add: round_eval)
  with groupByRound_derived_defined [OF m] m show ?thesis by simp
qed

theorem groupByRound_entry_consistent_witness:
  "(QF, [\<lparr>entry_match = orphanMatch, entry_derived = \<lparr>matchId = ''m9'', rankDiff = Some (- 12)\<rparr>\<rparr>])
     \<in> set (groupByRound [hardMatch, bareMatch, unrankedMatch, orphanMatch] exampleDerived exampleTournaments None None [])
   \<and> match_id orphanMatch = ''m9'' \<and> match_round orphanMatch = QF"
proof -
  have m: "(QF, [\<lparr>entry_match = orphanMatch, entry_derived = \<lparr>matchId = ''m9'', rankDiff = Some (- 12)\<rparr>\<rparr>])
     \<in> set (groupByRound [hardMatch, bareMatch, unrankedMatch, orphanMatch] exampleDerived exampleTournaments None None [])"
    by (simp add: groupByRound_example)
  from groupByRound_entry_consistent [OF m, of "\<lparr>entry_match = orphanMatch, entry_derived = \<lparr>matchId = ''m9'', rankDiff = Some (- 12)\<rparr>\<rparr>"] m
  show ?thesis by simp
qed

section \<open>Beeswarm layout (utils/d3/layout)\<close>

text \<open>
  Modelled from the spec: the module \<^verbatim>\<open>utils/d3/layout\<close> with \<^verbatim>\<open>beeswarmLayout\<close> is not
  among the sources; only its call in the beeswarm chart is. The definitions of this
  section follow section 4.3 of the specification. Numbers are reals.

  An input point has a \<^verbatim>\<open>value\<close> (here \<open>pvalue\<close>) and a payload; a placed point has in
  addition \<^verbatim>\<open>y\<close> (here \<open>ypos\<close>), the position of its value on the axis, and \<^verbatim>\<open>x_offset\<close>.
\<close>

record 'a point =
  pvalue :: real
  payload :: 'a

record 'a beeswarmPoint = "'a point" +
  ypos :: real
  x_offset :: real

text \<open>
  Modelled from the spec: the offsets that are tried, in the order of preference
  \<open>0, +\<delta>, -\<delta>, +2\<delta>, -2\<delta>, \<dots>\<close> with \<open>\<delta> = 2 \<times> pointRadius\<close>; \<open>candidate r k\<close> is
  the \<open>k\<close>-th of them.
\<close>

definition candidate :: "real \<Rightarrow> nat \<Rightarrow> real" where
  "candidate r k =
     (if even k then - (real (k div 2) * (2 * r)) else real (Suc k div 2) * (2 * r))"

text \<open>
  Modelled from the spec: an offset keeps a centre at least \<open>2 \<times> pointRadius\<close> away from
  every placed point of the active window, whose offsets are \<open>placed\<close>.
\<close>

definition keepsAway :: "real \<Rightarrow> real list \<Rightarrow> real \<Rightarrow> bool" where
  "keepsAway r placed c = list_all (\<lambda>x. 2 * r \<le> \<bar>c - x\<bar>) placed"

text \<open>
  The search below ends: a candidate that is too close to a placed offset is bounded by
  the placed offsets, and the candidates grow without bound.
\<close>

lemma candidate_abs: "0 < r \<Longrightarrow> real k * r \<le> \<bar>candidate r k\<bar>"
proof (cases "even k")
  case True
  assume r: "0 < r"
  from True obtain j where k: "k = 2 * j" by (elim evenE)
  with r show ?thesis by (simp add: candidate_def abs_mult)
next
  case False
  assume r: "0 < r"
  from False obtain j where k: "k = 2 * j + 1" by (elim oddE)
  with r show ?thesis by (simp add: candidate_def abs_mult algebra_simps)
qed

lemma member_abs_le_sum: "x \<in> set xs \<Longrightarrow> \<bar>x\<bar> \<le> sum_list (map abs xs)" for x :: real
proof (induction xs)
  case Nil
  then show ?case by simp
next
  case (Cons a xs)
  have "0 \<le> sum_list (map abs xs)" by (rule sum_list_nonneg) auto
  with Cons show ?case by auto
qed

lemma blocked_bound:
  assumes "\<not> keepsAway r placed (candidate r k)"
  shows "k < nat \<lceil>sum_list (map abs placed) / r\<rceil> + 2"
proof -
  from assms obtain x where x: "x \<in> set placed" "\<bar>candidate r k - x\<bar> < 2 * r"
    by (auto simp: keepsAway_def list_all_iff not_le)
  then have r: "0 < r" by linarith
  let ?S = "sum_list (map abs placed)"
  have "real k * r \<le> \<bar>candidate r k\<bar>" by (rule candidate_abs [OF r])
  also have "\<dots> \<le> \<bar>candidate r k - x\<bar> + \<bar>x\<bar>" by linarith
  also have "\<dots> < 2 * r + ?S" using x member_abs_le_sum [OF x(1)] by linarith
  finally have "real k * r < (2 + ?S / r) * r" using r by (simp add: algebra_simps)
  with r have "real k < 2 + ?S / r" by simp
  also have "\<dots> \<le> 2 + real_of_int \<lceil>?S / r\<rceil>" by simp
  finally have "int k < 2 + \<lceil>?S / r\<rceil>" by linarith
  then show ?thesis by linarith
qed

text \<open>
  Modelled from the spec: the smallest-magnitude offset that keeps away from the window,
  found by trying the candidates in their order from the \<open>k\<close>-th on.
\<close>

function findOffset :: "real \<Rightarrow> real list \<Rightarrow> nat \<Rightarrow> real" where
  "findOffset r placed k =
     (if keepsAway r placed (candidate r k) then candidate r k
      else findOffset r placed (Suc k))"
  by pat_completeness auto
termination
proof (relation "measure (\<lambda>(r, placed, k). nat \<lceil>sum_list (map abs placed) / r\<rceil> + 2 - k)")
  show "wf (measure (\<lambda>(r, placed, k). nat \<lceil>sum_list (map abs placed) / r\<rceil> + 2 - k))" by simp
next
  fix r :: real and placed k
  assume "\<not> keepsAway r placed (candidate r k)"
  then have "k < nat \<lceil>sum_list (map abs placed) / r\<rceil> + 2" by (rule blocked_bound)
  then show "((r, placed, Suc k), (r, placed, k))
        \<in> measure (\<lambda>(r, placed, k). nat \<lceil>sum_list (map abs placed) / r\<rceil> + 2 - k)"
    by simp
qed

declare findOffset.simps [simp del]

text \<open>
  Modelled from the spec: the single sweep over the points sorted by \<open>y\<close>. \<open>active\<close> holds
  the placed points still in collision range; the window of the current point are those
  whose \<open>y\<close> is less than \<open>2 \<times> pointRadius\<close> from its own (the range in which property
  P3 asks for separation). A point with an empty window gets offset 0 and starts the
  active list anew.
\<close>

fun sweep :: "real \<Rightarrow> 'a beeswarmPoint list \<Rightarrow> 'a beeswarmPoint list \<Rightarrow> 'a beeswarmPoint list" where
  "sweep r active [] = []"
| "sweep r active (p # ps) =
     (let window = filter (\<lambda>q. \<bar>ypos p - ypos q\<bar> < 2 * r) active;
          placed = p\<lparr>x_offset := (if window = [] then 0
                                    else findOffset r (map x_offset window) 0)\<rparr>
      in placed # sweep r (window @ [placed]) ps)"

text \<open>
  Modelled from the spec: map every value through the position function, sort by \<open>y\<close>
  ascending with a stable sort, sweep, and emit the points in that order.
\<close>

definition beeswarmLayout :: "'a point list \<Rightarrow> (real \<Rightarrow> real) \<Rightarrow> real \<Rightarrow> 'a beeswarmPoint list" where
  "beeswarmLayout points positionFn pointRadius =
     sweep pointRadius []
       (sort_key ypos
          (map (\<lambda>p. \<lparr>pvalue = pvalue p, payload = payload p,
                      ypos = positionFn (pvalue p), x_offset = 0\<rparr>) points))"



section \<open>Properties of the beeswarm layout\<close>

lemma findOffset_keepsAway: "keepsAway r placed (findOffset r placed k)"
proof (induction r placed k rule: findOffset.induct)
  case (1 r placed k)
  show ?case
  proof (cases "keepsAway r placed (candidate r k)")
    case True
    then show ?thesis by (subst findOffset.simps) simp
  next
    case False
    with 1 show ?thesis by (subst findOffset.simps) simp
  qed
qed

lemma sweep_keeps_fields:
  "map (\<lambda>p. (pvalue p, payload p, ypos p)) (sweep r active ps) =
   map (\<lambda>p. (pvalue p, payload p, ypos p)) ps"
  by (induction ps arbitrary: active) (simp_all add: Let_def)

lemma sweep_ypos: "map ypos (sweep r active ps) = map ypos ps"
  by (induction ps arbitrary: active) (simp_all add: Let_def)

lemma length_sweep: "length (sweep r active ps) = length ps"
  by (induction ps arbitrary: active) (simp_all add: Let_def)

text \<open>Two placed circles of radius \<open>r\<close> do not overlap.\<close>

definition apart :: "real \<Rightarrow> 'a beeswarmPoint \<Rightarrow> 'a beeswarmPoint \<Rightarrow> bool" where
  "apart r p q = (\<bar>ypos p - ypos q\<bar> < 2 * r \<longrightarrow> 2 * r \<le> \<bar>x_offset p - x_offset q\<bar>)"

lemma apart_sym: "apart r p q \<Longrightarrow> apart r q p"
  by (simp add: apart_def abs_minus_commute)

lemma sweep_apart:
  assumes "sorted (map ypos ps)" and "\<forall>q\<in>set active. \<forall>p\<in>set ps. ypos q \<le> ypos p"
  shows "(\<forall>q\<in>set active. \<forall>b\<in>set (sweep r active ps). apart r b q)
         \<and> sorted_wrt (apart r) (sweep r active ps)"
  using assms
proof (induction ps arbitrary: active)
  case Nil
  show ?case by simp
next
  case (Cons p ps)
  define window where "window = filter (\<lambda>q. \<bar>ypos p - ypos q\<bar> < 2 * r) active"
  define x where "x = (if window = [] then 0 else findOffset r (map x_offset window) 0)"
  define placed where "placed = p\<lparr>x_offset := x\<rparr>"
  have unfold: "sweep r active (p # ps) = placed # sweep r (window @ [placed]) ps"
    by (simp add: window_def x_def placed_def Let_def)
  have yp: "ypos placed = ypos p" and xp: "x_offset placed = x" by (simp_all add: placed_def)
  have free: "\<forall>q\<in>set window. 2 * r \<le> \<bar>x - x_offset q\<bar>"
  proof (cases "window = []")
    case True
    then show ?thesis by simp
  next
    case False
    then have "x = findOffset r (map x_offset window) 0" by (simp add: x_def)
    with findOffset_keepsAway [of r "map x_offset window" 0] show ?thesis
      by (simp add: keepsAway_def list_all_iff)
  qed
  have sorted_ps: "sorted (map ypos ps)" and p_le: "\<forall>p'\<in>set ps. ypos p \<le> ypos p'"
    using Cons.prems(1) by simp_all
  have act: "\<forall>q\<in>set (window @ [placed]). \<forall>p'\<in>set ps. ypos q \<le> ypos p'"
    using Cons.prems(2) p_le yp by (auto simp: window_def)
  from Cons.IH [OF sorted_ps act]
  have ih1: "\<forall>q\<in>set (window @ [placed]). \<forall>b\<in>set (sweep r (window @ [placed]) ps). apart r b q"
    and ih2: "sorted_wrt (apart r) (sweep r (window @ [placed]) ps)" by blast+
  have rest_ge: "ypos p \<le> ypos b" if "b \<in> set (sweep r (window @ [placed]) ps)" for b
  proof -
    from that have "ypos b \<in> set (map ypos (sweep r (window @ [placed]) ps))" by simp
    then have "ypos b \<in> set (map ypos ps)" by (simp only: sweep_ypos)
    with p_le show ?thesis by auto
  qed
  have part1: "apart r b q" if q: "q \<in> set active" and b: "b \<in> set (placed # sweep r (window @ [placed]) ps)"
    for q b
  proof (cases "\<bar>ypos p - ypos q\<bar> < 2 * r")
    case True
    with q have qw: "q \<in> set window" by (simp add: window_def)
    from b consider "b = placed" | "b \<in> set (sweep r (window @ [placed]) ps)" by auto
    then show ?thesis
    proof cases
      case 1
      with free qw xp show ?thesis by (simp add: apart_def)
    next
      case 2
      with ih1 qw show ?thesis by simp
    qed
  next
    case False
    from q Cons.prems(2) have qp: "ypos q \<le> ypos p" by simp
    from b consider "b = placed" | "b \<in> set (sweep r (window @ [placed]) ps)" by auto
    then have "ypos p \<le> ypos b"
    proof cases
      case 1
      then show ?thesis by (simp add: yp)
    next
      case 2
      then show ?thesis by (rule rest_ge)
    qed
    with False qp have "\<not> \<bar>ypos b - ypos q\<bar> < 2 * r" by linarith
    then show ?thesis by (simp add: apart_def)
  qed
  have part2: "\<forall>b\<in>set (sweep r (window @ [placed]) ps). apart r placed b"
    using ih1 by (auto intro: apart_sym)
  show ?case unfolding unfold using part1 part2 ih2 by auto
qed

lemma sorted_wrt_apart_nth:
  assumes "sorted_wrt (apart r) out" "i < length out" "j < length out" "i \<noteq> j"
  shows "apart r (out ! i) (out ! j)"
proof (cases "i < j")
  case True
  with assms show ?thesis by (simp add: sorted_wrt_iff_nth_less)
next
  case False
  with assms have "j < i" by simp
  with assms have "apart r (out ! j) (out ! i)" by (simp add: sorted_wrt_iff_nth_less)
  then show ?thesis by (rule apart_sym)
qed

text \<open>
  Claim C1. For every input, position function and radius \<open>r\<close>, two different points of the
  output of \<open>beeswarmLayout\<close> whose \<open>y\<close> differ by less than \<open>2r\<close> have offsets that differ
  by at least \<open>2r\<close>.
\<close>

theorem beeswarmLayout_no_overlap:
  assumes "i < length (beeswarmLayout points positionFn r)"
    and "j < length (beeswarmLayout points positionFn r)"
    and "i \<noteq> j"
    and "\<bar>ypos (beeswarmLayout points positionFn r ! i) - ypos (beeswarmLayout points positionFn r ! j)\<bar> < 2 * r"
  shows "2 * r \<le> \<bar>x_offset (beeswarmLayout points positionFn r ! i)
                   - x_offset (beeswarmLayout points positionFn r ! j)\<bar>"
proof -
  have "sorted_wrt (apart r) (beeswarmLayout points positionFn r)"
    unfolding beeswarmLayout_def by (rule sweep_apart [THEN conjunct2]) simp_all
  from sorted_wrt_apart_nth [OF this assms(1-3)] assms(4) show ?thesis
    by (simp add: apart_def)
qed

lemma point_eta: "\<lparr>pvalue = pvalue p, payload = payload p\<rparr> = p" for p :: "'a point"
  by (cases p) simp

text \<open>
  Claim C4. The output of \<open>beeswarmLayout\<close> has one entry for each input entry, with the
  same value and payload (as multisets, the output without its coordinates is the
  input), and in every output entry \<open>y\<close> is the position function at its value.
\<close>

theorem beeswarmLayout_entries:
  "mset (map (\<lambda>b. \<lparr>pvalue = pvalue b, payload = payload b\<rparr>) (beeswarmLayout points positionFn r))
     = mset points
   \<and> length (beeswarmLayout points positionFn r) = length points
   \<and> (\<forall>b\<in>set (beeswarmLayout points positionFn r). ypos b = positionFn (pvalue b))"
proof (intro conjI)
  let ?mk = "\<lambda>p. \<lparr>pvalue = pvalue p, payload = payload p, ypos = positionFn (pvalue p), x_offset = 0\<rparr>"
  let ?sorted = "sort_key ypos (map ?mk points)"
  have f: "map (\<lambda>p. (pvalue p, payload p, ypos p)) (beeswarmLayout points positionFn r) =
           map (\<lambda>p. (pvalue p, payload p, ypos p)) ?sorted"
    unfolding beeswarmLayout_def by (rule sweep_keeps_fields)
  have "map (\<lambda>b. \<lparr>pvalue = pvalue b, payload = payload b\<rparr>) (beeswarmLayout points positionFn r)
        = map (\<lambda>t. \<lparr>pvalue = fst t, payload = fst (snd t)\<rparr>)
            (map (\<lambda>p. (pvalue p, payload p, ypos p)) (beeswarmLayout points positionFn r))"
    by (simp add: comp_def)
  also have "\<dots> = map (\<lambda>b. \<lparr>pvalue = pvalue b, payload = payload b\<rparr>) ?sorted"
    unfolding f by (simp add: comp_def)
  finally have e: "map (\<lambda>b. \<lparr>pvalue = pvalue b, payload = payload b\<rparr>) (beeswarmLayout points positionFn r)
     = map (\<lambda>b. \<lparr>pvalue = pvalue b, payload = payload b\<rparr>) ?sorted" .
  have "mset (map (\<lambda>b. \<lparr>pvalue = pvalue b, payload = payload b\<rparr>) ?sorted)
        = mset (map (\<lambda>b. \<lparr>pvalue = pvalue b, payload = payload b\<rparr>) (map ?mk points))"
    by (simp only: mset_map mset_sort)
  also have "map (\<lambda>b. \<lparr>pvalue = pvalue b, payload = payload b\<rparr>) (map ?mk points) = points"
    by (simp add: comp_def point_eta)
  finally show "mset (map (\<lambda>b. \<lparr>pvalue = pvalue b, payload = payload b\<rparr>) (beeswarmLayout points positionFn r))
     = mset points"
    unfolding e .
  show "length (beeswarmLayout points positionFn r) = length points"
    by (simp add: beeswarmLayout_def length_sweep)
  show "\<forall>b\<in>set (beeswarmLayout points positionFn r). ypos b = positionFn (pvalue b)"
  proof
    fix b assume "b \<in> set (beeswarmLayout points positionFn r)"
    then have "(pvalue b, payload b, ypos b) \<in> set (map (\<lambda>p. (pvalue p, payload p, ypos p)) (beeswarmLayout points positionFn r))"
      by force
    then have "(pvalue b, payload b, ypos b) \<in> set (map (\<lambda>p. (pvalue p, payload p, ypos p)) ?sorted)"
      unfolding f .
    then show "ypos b = positionFn (pvalue b)" by auto
  qed
qed



text \<open>The \<open>k\<close>-th candidate is the multiple \<open>slot k\<close> of \<open>2r\<close>.\<close>

definition slot :: "nat \<Rightarrow> int" where
  "slot k = (if even k then - int (k div 2) else int (Suc k div 2))"

lemma candidate_slot: "candidate r k = real_of_int (slot k) * (2 * r)"
  by (simp add: candidate_def slot_def)

lemma slot_inj: "i \<noteq> j \<Longrightarrow> slot i \<noteq> slot j"
  unfolding slot_def by (auto elim!: evenE oddE)

lemma candidate_apart:
  assumes "0 < r" "i \<noteq> j"
  shows "2 * r \<le> \<bar>candidate r i - candidate r j\<bar>"
proof -
  from assms(2) have "slot i \<noteq> slot j" by (rule slot_inj)
  then have "1 \<le> \<bar>slot i - slot j\<bar>" by linarith
  then have "1 \<le> \<bar>real_of_int (slot i - slot j)\<bar>" by linarith
  then have "1 * (2 * r) \<le> \<bar>real_of_int (slot i - slot j)\<bar> * (2 * r)"
    using assms(1) by (intro mult_right_mono) simp_all
  also have "\<dots> = \<bar>real_of_int (slot i - slot j) * (2 * r)\<bar>"
    using assms(1) by (simp add: abs_mult)
  also have "real_of_int (slot i - slot j) * (2 * r) = candidate r i - candidate r j"
    by (simp add: candidate_slot algebra_simps)
  finally show ?thesis by simp
qed

lemma findOffset_fresh:
  assumes "0 < r" "j \<le> n"
  shows "findOffset r (map (candidate r) [0..<n]) j = candidate r n"
  using assms(2)
proof (induction "n - j" arbitrary: j)
  case 0
  then have j: "j = n" by simp
  have "keepsAway r (map (candidate r) [0..<n]) (candidate r n)"
    using candidate_apart [OF assms(1)] by (simp add: keepsAway_def list_all_iff)
  then show ?case unfolding j by (subst findOffset.simps) simp
next
  case (Suc d)
  then have "j < n" by simp
  then have mem: "candidate r j \<in> set (map (candidate r) [0..<n])" by simp
  have "\<not> keepsAway r (map (candidate r) [0..<n]) (candidate r j)"
  proof
    assume "keepsAway r (map (candidate r) [0..<n]) (candidate r j)"
    then have "\<forall>x\<in>set (map (candidate r) [0..<n]). 2 * r \<le> \<bar>candidate r j - x\<bar>"
      by (simp only: keepsAway_def list_all_iff)
    from bspec [OF this mem] assms(1) show False by simp
  qed
  moreover from Suc have "findOffset r (map (candidate r) [0..<n]) (Suc j) = candidate r n" by simp
  ultimately show ?case by (subst findOffset.simps) simp
qed

lemma sweep_same_ypos:
  assumes "0 < r" and "\<forall>p\<in>set ps. ypos p = c" and "\<forall>q\<in>set active. ypos q = c"
    and "map x_offset active = map (candidate r) [0..<n]"
  shows "map x_offset (sweep r active ps) = map (candidate r) [n..<n + length ps]"
  using assms(2-4)
proof (induction ps arbitrary: active n)
  case Nil
  show ?case by simp
next
  case (Cons p ps)
  have w: "filter (\<lambda>q. \<bar>ypos p - ypos q\<bar> < 2 * r) active = active"
    using Cons.prems(1,2) assms(1) by (simp add: filter_id_conv)
  define x where "x = (if active = [] then 0 else findOffset r (map x_offset active) 0)"
  define placed where "placed = p\<lparr>x_offset := x\<rparr>"
  have unfold: "sweep r active (p # ps) = placed # sweep r (active @ [placed]) ps"
    by (simp add: w x_def placed_def Let_def)
  have x: "x = candidate r n"
  proof (cases "active = []")
    case True
    with Cons.prems(3) have "n = 0" by simp
    with True show ?thesis by (simp add: x_def candidate_def)
  next
    case False
    then show ?thesis
      by (simp add: x_def Cons.prems(3) findOffset_fresh [OF assms(1)])
  qed
  have e: "n + length (p # ps) = Suc n + length ps" by simp
  have "n < Suc n + length ps" by simp
  then have u: "[n..<n + length (p # ps)] = n # [Suc n..<Suc n + length ps]"
    unfolding e by (rule upt_conv_Cons)
  have "map x_offset (sweep r (active @ [placed]) ps) = map (candidate r) [Suc n..<Suc n + length ps]"
  proof (rule Cons.IH)
    show "\<forall>p\<in>set ps. ypos p = c" using Cons.prems(1) by simp
    show "\<forall>q\<in>set (active @ [placed]). ypos q = c" using Cons.prems(1,2) by (simp add: placed_def)
    show "map x_offset (active @ [placed]) = map (candidate r) [0..<Suc n]"
      by (simp add: Cons.prems(3) placed_def x)
  qed
  then show ?case unfolding unfold u by (simp add: placed_def x del: upt_Suc)
qed

lemma sweep_same_ypos_full:
  assumes "0 < r" and "\<forall>p\<in>set ps. ypos p = c" and "\<forall>q\<in>set active. ypos q = c"
    and "map x_offset active = map (candidate r) [0..<n]"
  shows "sweep r active ps =
         map (\<lambda>kp. (snd kp)\<lparr>x_offset := candidate r (fst kp)\<rparr>) (zip [n..<n + length ps] ps)"
  using assms(2-4)
proof (induction ps arbitrary: active n)
  case Nil
  show ?case by simp
next
  case (Cons p ps)
  have w: "filter (\<lambda>q. \<bar>ypos p - ypos q\<bar> < 2 * r) active = active"
    using Cons.prems(1,2) assms(1) by (simp add: filter_id_conv)
  define x where "x = (if active = [] then 0 else findOffset r (map x_offset active) 0)"
  define placed where "placed = p\<lparr>x_offset := x\<rparr>"
  have unfold: "sweep r active (p # ps) = placed # sweep r (active @ [placed]) ps"
    by (simp add: w x_def placed_def Let_def)
  have x: "x = candidate r n"
  proof (cases "active = []")
    case True
    with Cons.prems(3) have "n = 0" by simp
    with True show ?thesis by (simp add: x_def candidate_def)
  next
    case False
    then show ?thesis
      by (simp add: x_def Cons.prems(3) findOffset_fresh [OF assms(1)])
  qed
  have e: "n + length (p # ps) = Suc n + length ps" by simp
  have "n < Suc n + length ps" by simp
  then have u: "[n..<n + length (p # ps)] = n # [Suc n..<Suc n + length ps]"
    unfolding e by (rule upt_conv_Cons)
  have "sweep r (active @ [placed]) ps =
        map (\<lambda>kp. (snd kp)\<lparr>x_offset := candidate r (fst kp)\<rparr>) (zip [Suc n..<Suc n + length ps] ps)"
  proof (rule Cons.IH)
    show "\<forall>p\<in>set ps. ypos p = c" using Cons.prems(1) by simp
    show "\<forall>q\<in>set (active @ [placed]). ypos q = c" using Cons.prems(1,2) by (simp add: placed_def)
    show "map x_offset (active @ [placed]) = map (candidate r) [0..<Suc n]"
      by (simp add: Cons.prems(3) placed_def x)
  qed
  then show ?case unfolding unfold u by (simp add: placed_def x del: upt_Suc)
qed

lemma candidate_mirror: "candidate r (2 * k + 2) = - candidate r (2 * k + 1)"
  by (simp add: candidate_def)

lemma slot_outward: "\<bar>slot k\<bar> \<le> \<bar>slot (Suc k)\<bar>"
  unfolding slot_def by (auto elim!: evenE oddE)

lemma candidate_outward: "0 < r \<Longrightarrow> \<bar>candidate r k\<bar> \<le> \<bar>candidate r (Suc k)\<bar>"
proof -
  assume r: "0 < r"
  have "real_of_int \<bar>slot k\<bar> \<le> real_of_int \<bar>slot (Suc k)\<bar>"
    using slot_outward [of k] by linarith
  then have "real_of_int \<bar>slot k\<bar> * (2 * r) \<le> real_of_int \<bar>slot (Suc k)\<bar> * (2 * r)"
    using r by (intro mult_right_mono) simp_all
  with r show ?thesis by (simp add: candidate_slot abs_mult)
qed

lemma beeswarmLayout_same_value_nth:
  assumes r: "0 < r" and v: "\<forall>p\<in>set points. pvalue p = v" and k: "k < length points"
  shows "beeswarmLayout points positionFn r ! k =
         \<lparr>pvalue = pvalue (points ! k), payload = payload (points ! k),
          ypos = positionFn v, x_offset = candidate r k\<rparr>"
proof -
  let ?mk = "\<lambda>p. \<lparr>pvalue = pvalue p, payload = payload p, ypos = positionFn (pvalue p), x_offset = 0\<rparr>"
  have same: "\<forall>p\<in>set (map ?mk points). ypos p = positionFn v" using v by simp
  then have "sorted (map ypos (map ?mk points))"
    by (simp add: sorted_wrt_iff_nth_less comp_def)
  then have s: "sort_key ypos (map ?mk points) = map ?mk points" by (rule sort_key_id_if_sorted)
  have "sweep r [] (map ?mk points) =
        map (\<lambda>kp. (snd kp)\<lparr>x_offset := candidate r (fst kp)\<rparr>)
          (zip [0..<0 + length (map ?mk points)] (map ?mk points))"
    by (rule sweep_same_ypos_full [OF r same]) simp_all
  then have "beeswarmLayout points positionFn r =
        map (\<lambda>kp. (snd kp)\<lparr>x_offset := candidate r (fst kp)\<rparr>)
          (zip [0..<length points] (map ?mk points))"
    by (simp add: beeswarmLayout_def s)
  with k v show ?thesis by simp
qed

text \<open>Scenario B of the specification: three points of value 5.\<close>

definition scenarioB :: "string point list" where
  "scenarioB = [\<lparr>pvalue = 5, payload = ''a''\<rparr>, \<lparr>pvalue = 5, payload = ''b''\<rparr>,
                \<lparr>pvalue = 5, payload = ''c''\<rparr>]"

lemma scenarioB_layout:
  "beeswarmLayout scenarioB (\<lambda>v. v) 4 =
     [\<lparr>pvalue = 5, payload = ''a'', ypos = 5, x_offset = 0\<rparr>,
      \<lparr>pvalue = 5, payload = ''b'', ypos = 5, x_offset = 8\<rparr>,
      \<lparr>pvalue = 5, payload = ''c'', ypos = 5, x_offset = - 8\<rparr>]"
  unfolding scenarioB_def by code_simp

text \<open>
  Claim C8. Points that all share one value, laid out with a positive radius \<open>r\<close>, are
  resolved one after the other in their input order: the \<open>k\<close>-th input point is the
  \<open>k\<close>-th output point and gets the \<open>k\<close>-th of the offsets \<open>0, +2r, -2r, +4r, -4r, \<dots>\<close>.
  These offsets start at zero, alternate in sign, move outward, mirror each other, and
  any two of them are at least \<open>2r\<close> apart. For three points of value 5, the identity as
  position function and radius 4 the offsets are \<open>[0, 8, -8]\<close>, the alternating pattern
  with step \<open>2 \<times> pointRadius\<close>, and no two of them are closer than 8.
\<close>

theorem beeswarmLayout_same_value:
  "(0 < r \<and> (\<forall>p\<in>set points. pvalue p = v) \<longrightarrow>
      length (beeswarmLayout points positionFn r) = length points
      \<and> (\<forall>k<length points.
            beeswarmLayout points positionFn r ! k =
              \<lparr>pvalue = pvalue (points ! k), payload = payload (points ! k),
               ypos = positionFn v, x_offset = candidate r k\<rparr>)
      \<and> map x_offset (beeswarmLayout points positionFn r) = map (candidate r) [0..<length points]
      \<and> (\<forall>i j. i \<noteq> j \<longrightarrow> 2 * r \<le> \<bar>candidate r i - candidate r j\<bar>)
      \<and> (\<forall>k. \<bar>candidate r k\<bar> \<le> \<bar>candidate r (Suc k)\<bar>))
   \<and> candidate r 0 = 0
   \<and> (\<forall>k. candidate r (2 * k + 2) = - candidate r (2 * k + 1))
   \<and> beeswarmLayout scenarioB (\<lambda>v. v) 4 =
       [\<lparr>pvalue = 5, payload = ''a'', ypos = 5, x_offset = 0\<rparr>,
        \<lparr>pvalue = 5, payload = ''b'', ypos = 5, x_offset = 8\<rparr>,
        \<lparr>pvalue = 5, payload = ''c'', ypos = 5, x_offset = - 8\<rparr>]
   \<and> sorted_wrt (\<lambda>a b. 8 \<le> \<bar>x_offset a - x_offset b\<bar>) (beeswarmLayout scenarioB (\<lambda>v. v) 4)"
proof (intro conjI impI allI)
  assume a: "0 < r \<and> (\<forall>p\<in>set points. pvalue p = v)"
  show "length (beeswarmLayout points positionFn r) = length points"
    by (simp add: beeswarmLayout_def length_sweep)
  let ?mk = "\<lambda>p. \<lparr>pvalue = pvalue p, payload = payload p, ypos = positionFn (pvalue p), x_offset = 0\<rparr>"
  have same: "\<forall>p\<in>set (map ?mk points). ypos p = positionFn v" using a by simp
  then have "sorted (map ypos (map ?mk points))"
    by (simp add: sorted_wrt_iff_nth_less comp_def)
  then have s: "sort_key ypos (map ?mk points) = map ?mk points" by (rule sort_key_id_if_sorted)
  have "map x_offset (sweep r [] (map ?mk points)) = map (candidate r) [0..<0 + length (map ?mk points)]"
    by (rule sweep_same_ypos [OF _ same]) (use a in simp_all)
  then show "map x_offset (beeswarmLayout points positionFn r) = map (candidate r) [0..<length points]"
    by (simp add: beeswarmLayout_def s)
next
  fix k
  assume a: "0 < r \<and> (\<forall>p\<in>set points. pvalue p = v)" and k: "k < length points"
  from a have r: "0 < r" and v: "\<forall>p\<in>set points. pvalue p = v" by simp_all
  show "beeswarmLayout points positionFn r ! k =
              \<lparr>pvalue = pvalue (points ! k), payload = payload (points ! k),
               ypos = positionFn v, x_offset = candidate r k\<rparr>"
    by (rule beeswarmLayout_same_value_nth [OF r v k])
next
  fix i j :: nat
  assume "0 < r \<and> (\<forall>p\<in>set points. pvalue p = v)" "i \<noteq> j"
  then show "2 * r \<le> \<bar>candidate r i - candidate r j\<bar>" by (simp add: candidate_apart)
next
  fix k
  assume "0 < r \<and> (\<forall>p\<in>set points. pvalue p = v)"
  then show "\<bar>candidate r k\<bar> \<le> \<bar>candidate r (Suc k)\<bar>" by (simp add: candidate_outward)
next
  show "candidate r 0 = 0" by (simp add: candidate_def)
next
  fix k show "candidate r (2 * k + 2) = - candidate r (2 * k + 1)" by (rule candidate_mirror)
next
  show "beeswarmLayout scenarioB (\<lambda>v. v) 4 =
       [\<lparr>pvalue = 5, payload = ''a'', ypos = 5, x_offset = 0\<rparr>,
        \<lparr>pvalue = 5, payload = ''b'', ypos = 5, x_offset = 8\<rparr>,
        \<lparr>pvalue = 5, payload = ''c'', ypos = 5, x_offset = - 8\<rparr>]"
    by (rule scenarioB_layout)
next
  show "sorted_wrt (\<lambda>a b. 8 \<le> \<bar>x_offset a - x_offset b\<bar>) (beeswarmLayout scenarioB (\<lambda>v. v) 4)"
    by (simp add: scenarioB_layout)
qed

text \<open>
  The witness is Scenario B: the second input point, with payload \<open>b\<close>, is the second
  output point and has the offset 8.
\<close>

theorem beeswarmLayout_same_value_witness:
  "beeswarmLayout scenarioB (\<lambda>v. v) 4 ! 1 =
     \<lparr>pvalue = 5, payload = ''b'', ypos = 5, x_offset = 8\<rparr>
   \<and> scenarioB ! 1 = \<lparr>pvalue = 5, payload = ''b''\<rparr>
   \<and> map x_offset (beeswarmLayout scenarioB (\<lambda>v. v) 4) = [candidate 4 0, candidate 4 1, candidate 4 2]
   \<and> [candidate 4 0, candidate 4 1, candidate 4 2] = [0, 8, - 8]
   \<and> (8::real) \<le> \<bar>candidate 4 1 - candidate 4 2\<bar>
   \<and> \<bar>candidate 4 1\<bar> \<le> \<bar>candidate 4 2\<bar>"
proof -
  have h: "(0::real) < 4 \<and> (\<forall>p\<in>set scenarioB. pvalue p = 5)" by (simp add: scenarioB_def)
  have l: "[0..<length scenarioB] = [0, 1, 2]" and k: "1 < length scenarioB"
    by (simp_all add: scenarioB_def upt_conv_Cons)
  have n: "(1::nat) \<noteq> 2" by simp
  from beeswarmLayout_same_value [of 4 scenarioB 5 "\<lambda>v. v"] h
  have "\<forall>k<length scenarioB. beeswarmLayout scenarioB (\<lambda>v. v) 4 ! k =
          \<lparr>pvalue = pvalue (scenarioB ! k), payload = payload (scenarioB ! k),
           ypos = 5, x_offset = candidate 4 k\<rparr>"
    and "map x_offset (beeswarmLayout scenarioB (\<lambda>v. v) 4) = map (candidate 4) [0..<length scenarioB]"
    and "\<forall>i j. i \<noteq> j \<longrightarrow> 2 * 4 \<le> \<bar>candidate 4 i - candidate 4 j\<bar>"
    and "\<forall>k. \<bar>candidate (4::real) k\<bar> \<le> \<bar>candidate 4 (Suc k)\<bar>" by blast+
  with l k n show ?thesis by (simp add: candidate_def scenarioB_def)
qed

text \<open>Five points, four of them in one cluster.\<close>

definition clusterExample :: "string point list" where
  "clusterExample = [\<lparr>pvalue = 5, payload = ''a''\<rparr>, \<lparr>pvalue = 30, payload = ''b''\<rparr>,
                     \<lparr>pvalue = 6, payload = ''c''\<rparr>, \<lparr>pvalue = 5, payload = ''d''\<rparr>,
                     \<lparr>pvalue = 12, payload = ''e''\<rparr>]"

lemma clusterExample_layout:
  "beeswarmLayout clusterExample (\<lambda>v. v) 4 =
     [\<lparr>pvalue = 5, payload = ''a'', ypos = 5, x_offset = 0\<rparr>,
      \<lparr>pvalue = 5, payload = ''d'', ypos = 5, x_offset = 8\<rparr>,
      \<lparr>pvalue = 6, payload = ''c'', ypos = 6, x_offset = - 8\<rparr>,
      \<lparr>pvalue = 12, payload = ''e'', ypos = 12, x_offset = 16\<rparr>,
      \<lparr>pvalue = 30, payload = ''b'', ypos = 30, x_offset = 0\<rparr>]"
  unfolding clusterExample_def by code_simp

theorem beeswarmLayout_no_overlap_witness:
  "(1::nat) < length (beeswarmLayout clusterExample (\<lambda>v. v) 4)
   \<and> (3::nat) < length (beeswarmLayout clusterExample (\<lambda>v. v) 4)
   \<and> \<bar>ypos (beeswarmLayout clusterExample (\<lambda>v. v) 4 ! 1) - ypos (beeswarmLayout clusterExample (\<lambda>v. v) 4 ! 3)\<bar> < 2 * 4
   \<and> x_offset (beeswarmLayout clusterExample (\<lambda>v. v) 4 ! 1) = 8
   \<and> x_offset (beeswarmLayout clusterExample (\<lambda>v. v) 4 ! 3) = 16"
proof -
  have a: "(1::nat) < length (beeswarmLayout clusterExample (\<lambda>v. v) 4)"
    and b: "(3::nat) < length (beeswarmLayout clusterExample (\<lambda>v. v) 4)"
    and c: "(1::nat) \<noteq> 3"
    and d: "\<bar>ypos (beeswarmLayout clusterExample (\<lambda>v. v) 4 ! 1) - ypos (beeswarmLayout clusterExample (\<lambda>v. v) 4 ! 3)\<bar> < 2 * 4"
    by (simp_all add: clusterExample_layout)
  from beeswarmLayout_no_overlap [OF a b c d] a b d show ?thesis
    by (simp add: clusterExample_layout)
qed

theorem beeswarmLayout_entries_witness:
  "map payload (beeswarmLayout clusterExample (\<lambda>v. v) 4) = [''a'', ''d'', ''c'', ''e'', ''b'']
   \<and> map ypos (beeswarmLayout clusterExample (\<lambda>v. v) 4) = [5, 5, 6, 12, 30]
   \<and> mset (map (\<lambda>b. \<lparr>pvalue = pvalue b, payload = payload b\<rparr>) (beeswarmLayout clusterExample (\<lambda>v. v) 4))
       = mset clusterExample
   \<and> length (beeswarmLayout clusterExample (\<lambda>v. v) 4) = 5"
  using beeswarmLayout_entries [of clusterExample "\<lambda>v. v" 4]
  by (simp add: clusterExample_layout)

end
